theory Spec2Isabelle
  imports Main "HOL-Library.Word"
begin

section \<open>Strings of the host language\<close>

text \<open>
  The formatter is the function \<open>formatHeaders\<close> of \<open>script.js\<close>. A JavaScript string is
  a sequence of 16-bit code units, so a string is a list of 16-bit words. \<open>js\<close> turns an
  ASCII literal into such a list; it is only used to write down concrete inputs.
\<close>

type_synonym jschar = "16 word"
type_synonym jsstring = "jschar list"

definition js :: "string \<Rightarrow> jsstring" where
  "js s = map of_char s"

abbreviation NL :: jschar where
  "NL \<equiv> 0x0A"

text \<open>
  \<open>String.prototype.trim\<close> strips the code units of the grammar productions WhiteSpace
  (TAB, VT, FF, ZWNBSP and the space separators) and LineTerminator (LF, CR, LS, PS)
  from both ends.
\<close>

definition isWhiteSpace :: "jschar \<Rightarrow> bool" where
  "isWhiteSpace c =
     (c = 0x09 \<or> c = 0x0B \<or> c = 0x0C \<or> c = 0x20 \<or> c = 0xA0 \<or> c = 0x1680
      \<or> (0x2000 \<le> c \<and> c \<le> 0x200A)
      \<or> c = 0x202F \<or> c = 0x205F \<or> c = 0x3000 \<or> c = 0xFEFF)"

definition isLineTerminator :: "jschar \<Rightarrow> bool" where
  "isLineTerminator c = (c = 0x0A \<or> c = 0x0D \<or> c = 0x2028 \<or> c = 0x2029)"

definition is_ws :: "jschar \<Rightarrow> bool" where
  "is_ws c = (isWhiteSpace c \<or> isLineTerminator c)"

definition trim :: "jsstring \<Rightarrow> jsstring" where
  "trim s = rev (dropWhile is_ws (rev (dropWhile is_ws s)))"

text \<open>
  \<open>s.split("\n")\<close>: the pieces between the line feeds. The empty string gives one empty
  piece, and a final line feed gives a final empty piece.
\<close>

fun split_nl :: "jsstring \<Rightarrow> jsstring list" where
  "split_nl [] = [[]]"
| "split_nl (c # cs) =
     (if c = NL then [] # split_nl cs
      else (case split_nl cs of
              [] \<Rightarrow> [[c]]
            | l # ls \<Rightarrow> (c # l) # ls))"

text \<open>\<open>Boolean(s)\<close> for a string \<open>s\<close>: only the empty string is falsy.\<close>

definition Boolean_str :: "jsstring \<Rightarrow> bool" where
  "Boolean_str s = (s \<noteq> [])"

text \<open>
  A value that is a string or \<open>undefined\<close> is an option. \<open>at lines i\<close> is \<open>lines[i]\<close>,
  which is \<open>undefined\<close> out of range; \<open>opt_trim v\<close> is \<open>v?.trim()\<close>; \<open>truthy\<close> is the
  test of \<open>if (key && value)\<close>; \<open>to_str\<close> is the conversion a template literal applies.
\<close>

definition at :: "'a list \<Rightarrow> nat \<Rightarrow> 'a option" where
  "at xs i = (if i < length xs then Some (xs ! i) else None)"

definition opt_trim :: "jsstring option \<Rightarrow> jsstring option" where
  "opt_trim v = (case v of None \<Rightarrow> None | Some s \<Rightarrow> Some (trim s))"

definition truthy :: "jsstring option \<Rightarrow> bool" where
  "truthy v = (case v of None \<Rightarrow> False | Some s \<Rightarrow> Boolean_str s)"

definition to_str :: "jsstring option \<Rightarrow> jsstring" where
  "to_str v = (case v of None \<Rightarrow> js ''undefined'' | Some s \<Rightarrow> s)"

definition template :: "jsstring option \<Rightarrow> jsstring option \<Rightarrow> jsstring" where
  "template key val = to_str key @ js '': '' @ to_str val @ [NL]"

section \<open>The formatter\<close>

text \<open>
  The \<open>for\<close> loop of \<open>formatHeaders\<close>, with its two variables \<open>i\<close> and \<open>result\<close>. It is
  defined without a termination argument: \<open>None\<close> stands for a loop that does not
  return, and that it does return is a theorem below.
\<close>

partial_function (option) loop :: "jsstring list \<Rightarrow> nat \<Rightarrow> jsstring \<Rightarrow> jsstring option" where
  "loop lines i result =
     (if i < length lines then
        (let key = opt_trim (at lines i);
             val = opt_trim (at lines (i + 1))
         in loop lines (i + 2)
              (if truthy key \<and> truthy val then result @ template key val else result))
      else Some result)"

text \<open>The sequence \<open>lines\<close>: the trimmed input, split and filtered.\<close>

definition filtered_lines :: "jsstring \<Rightarrow> jsstring list" where
  "filtered_lines raw = filter Boolean_str (split_nl (trim raw))"

text \<open>The rest of the body: the loop from \<open>i = 0\<close>, \<open>result = ""\<close>, and the final trim.\<close>

definition format_lines :: "jsstring list \<Rightarrow> jsstring option" where
  "format_lines lines = map_option trim (loop lines 0 [])"

definition format :: "jsstring \<Rightarrow> jsstring option" where
  "format raw = format_lines (filtered_lines raw)"

text \<open>
  The page holds the two text areas. \<open>formatHeaders\<close> reads the value of the first and
  writes the value of the second.
\<close>

record page =
  inputHeaders :: jsstring
  outputHeaders :: jsstring

definition formatHeaders :: "page \<Rightarrow> page option" where
  "formatHeaders p =
     (case format (inputHeaders p) of
        None \<Rightarrow> None
      | Some out \<Rightarrow> Some (p\<lparr>outputHeaders := out\<rparr>))"

section \<open>The specification's description of the output\<close>

text \<open>
  Positional pairing as the specification words it: entry 0 with entry 1, entry 2 with
  entry 3, and so on; a pair is retained when both parts are non-empty after trimming;
  a retained pair is rendered as \<open>name: value\<close>; the rendered lines are joined by single
  line feeds.
\<close>

definition pairs_by_position :: "'a list \<Rightarrow> ('a \<times> 'a) list" where
  "pairs_by_position xs = map (\<lambda>j. (xs ! (2 * j), xs ! (2 * j + 1))) [0..<length xs div 2]"

definition retained :: "jsstring \<times> jsstring \<Rightarrow> bool" where
  "retained p = (trim (fst p) \<noteq> [] \<and> trim (snd p) \<noteq> [])"

definition render :: "jsstring \<times> jsstring \<Rightarrow> jsstring" where
  "render p = trim (fst p) @ js '': '' @ trim (snd p)"

fun join_nl :: "jsstring list \<Rightarrow> jsstring" where
  "join_nl [] = []"
| "join_nl [l] = l"
| "join_nl (l # m # ls) = l @ NL # join_nl (m # ls)"

definition spec_output :: "jsstring list \<Rightarrow> jsstring" where
  "spec_output lines = join_nl (map render (filter retained (pairs_by_position lines)))"

text \<open>A line is blank when it trims to the empty string.\<close>

definition blank :: "jsstring \<Rightarrow> bool" where
  "blank l = (trim l = [])"

text \<open>The non-blank lines of an input, as the specification counts them.\<close>

definition nonblank_lines :: "jsstring \<Rightarrow> jsstring list" where
  "nonblank_lines raw = filter (\<lambda>l. \<not> blank l) (split_nl raw)"

text \<open>The lines of an output, and their number: the empty output has none.\<close>

definition output_lines :: "jsstring \<Rightarrow> jsstring list" where
  "output_lines out = (if out = [] then [] else split_nl out)"

definition line_count :: "jsstring \<Rightarrow> nat" where
  "line_count out = length (output_lines out)"

text \<open>
  What one run of the loop body appends, as a recursion over the remaining lines; and
  the shape of a rendered line: non-empty, with no whitespace at either end.
\<close>

fun emit :: "jsstring list \<Rightarrow> jsstring" where
  "emit (k # v # rest) = (if retained (k, v) then render (k, v) @ [NL] else []) @ emit rest"
| "emit [k] = []"
| "emit [] = []"

definition clean :: "jsstring \<Rightarrow> bool" where
  "clean l = (l \<noteq> [] \<and> \<not> is_ws (hd l) \<and> \<not> is_ws (last l))"

section \<open>Trimming\<close>

lemma dropWhile_last: "dropWhile P xs \<noteq> [] \<Longrightarrow> last (dropWhile P xs) = last xs"
  by (induction xs) (auto split: if_splits)

lemma ball_dropWhile: "(\<forall>x\<in>set (dropWhile P xs). P x) \<longleftrightarrow> (\<forall>x\<in>set xs. P x)"
  by (induction xs) auto

lemma trim_eq_Nil_iff: "trim s = [] \<longleftrightarrow> list_all is_ws s"
  by (simp add: trim_def list_all_iff ball_dropWhile)

lemma trim_ends:
  assumes "trim s \<noteq> []"
  shows "\<not> is_ws (hd (trim s))" and "\<not> is_ws (last (trim s))"
proof -
  let ?d = "dropWhile is_ws s"
  let ?e = "dropWhile is_ws (rev ?d)"
  from assms have e: "?e \<noteq> []" by (simp add: trim_def)
  then have d: "?d \<noteq> []" by (auto dest: set_dropWhileD)
  have "hd (trim s) = last ?e"
    unfolding trim_def by (rule hd_rev)
  also have "\<dots> = last (rev ?d)"
    using e by (rule dropWhile_last)
  also have "\<dots> = hd ?d"
    by (rule last_rev)
  finally show "\<not> is_ws (hd (trim s))"
    using hd_dropWhile [OF d] by simp
  have "last (trim s) = hd ?e"
    unfolding trim_def by (rule last_rev)
  then show "\<not> is_ws (last (trim s))"
    using hd_dropWhile [OF e] by simp
qed

lemma trim_core:
  assumes "x \<noteq> []" "\<not> is_ws (hd x)" "\<not> is_ws (last x)"
    and "list_all is_ws a" "list_all is_ws b"
  shows "trim (a @ x @ b) = x"
proof -
  from assms(1,2) have "dropWhile is_ws (x @ b) = x @ b"
    by (cases x) auto
  moreover have "dropWhile is_ws (a @ x @ b) = dropWhile is_ws (x @ b)"
    using assms(4) by (intro dropWhile_append2) (simp add: list_all_iff)
  ultimately have 1: "dropWhile is_ws (a @ x @ b) = x @ b"
    by simp
  from assms(1,3) have "dropWhile is_ws (rev x) = rev x"
    by (cases x rule: rev_cases) auto
  moreover have "dropWhile is_ws (rev b @ rev x) = dropWhile is_ws (rev x)"
    using assms(5) by (intro dropWhile_append2) (simp add: list_all_iff)
  ultimately have "rev (dropWhile is_ws (rev (x @ b))) = x"
    by simp
  with 1 show ?thesis by (simp only: trim_def)
qed

lemma trim_decomp:
  "\<exists>a b. a @ trim s @ b = s \<and> list_all is_ws a \<and> list_all is_ws b"
proof -
  let ?d = "dropWhile is_ws s"
  let ?a = "takeWhile is_ws s"
  let ?b = "rev (takeWhile is_ws (rev ?d))"
  have "trim s @ ?b = rev (takeWhile is_ws (rev ?d) @ dropWhile is_ws (rev ?d))"
    by (simp only: trim_def rev_append)
  also have "\<dots> = rev (rev ?d)"
    by (simp only: takeWhile_dropWhile_id)
  finally have "trim s @ ?b = ?d"
    by simp
  then have "?a @ trim s @ ?b = s"
    by simp
  moreover have "list_all is_ws ?a"
    by (auto simp: list_all_iff dest: set_takeWhileD)
  moreover have "list_all is_ws ?b"
    by (auto simp: list_all_iff dest: set_takeWhileD)
  ultimately show ?thesis by blast
qed

lemma trim_ws_append:
  assumes "list_all is_ws a" "list_all is_ws b"
  shows "trim (a @ s @ b) = trim s"
proof -
  obtain a' b' where s: "a' @ trim s @ b' = s"
    and a': "list_all is_ws a'" and b': "list_all is_ws b'"
    using trim_decomp by blast
  show ?thesis
  proof (cases "trim s = []")
    case True
    then have "list_all is_ws s" by (simp only: trim_eq_Nil_iff)
    with assms have "list_all is_ws (a @ s @ b)" by simp
    then have "trim (a @ s @ b) = []" by (simp only: trim_eq_Nil_iff)
    with True show ?thesis by simp
  next
    case False
    have "trim ((a @ a') @ trim s @ (b' @ b)) = trim s"
      using False trim_ends [OF False] assms a' b'
      by (intro trim_core) simp_all
    moreover have "(a @ a') @ trim s @ (b' @ b) = a @ (a' @ trim s @ b') @ b"
      by simp
    ultimately have "trim (a @ (a' @ trim s @ b') @ b) = trim s"
      by simp
    then show ?thesis by (simp only: s)
  qed
qed

lemma trim_trim: "trim (trim s) = trim s"
proof (cases "trim s = []")
  case True
  have "trim ([]::jsstring) = []" by (simp add: trim_def)
  then show ?thesis by (simp only: True)
next
  case False
  have "trim ([] @ trim s @ []) = trim s"
    using False trim_ends [OF False] by (intro trim_core) simp_all
  then show ?thesis by simp
qed

section \<open>The loop\<close>

lemma is_ws_NL: "is_ws NL"
  by (simp add: is_ws_def isLineTerminator_def)

lemma js_colon_space: "js '': '' = [0x3A, 0x20]"
  by (simp add: js_def)

lemma body_step:
  "(if truthy (opt_trim (Some k)) \<and> truthy (opt_trim (Some v))
    then r @ template (opt_trim (Some k)) (opt_trim (Some v)) else r)
   = r @ (if retained (k, v) then render (k, v) @ [NL] else [])"
  by (simp add: truthy_def opt_trim_def template_def to_str_def retained_def render_def
      Boolean_str_def)

lemma loop_emit: "loop lines i r = Some (r @ emit (drop i lines))"
proof (induction "length lines - i" arbitrary: i r rule: less_induct)
  case less
  show ?case
  proof (cases "i < length lines")
    case False
    then show ?thesis by (subst loop.simps) simp
  next
    case True
    then have smaller: "length lines - (i + 2) < length lines - i"
      by arith
    show ?thesis
    proof (cases "i + 1 < length lines")
      case False
      with True have "drop i lines = [lines ! i]"
        by (metis Cons_nth_drop_Suc Suc_eq_plus1 drop_all not_less)
      moreover have "drop (i + 2) lines = []"
        using False by simp
      moreover have "at lines (i + 1) = None"
        using False by (simp add: at_def)
      ultimately show ?thesis
        using True less [OF smaller]
        by (subst loop.simps) (simp add: truthy_def opt_trim_def)
    next
      case next_in: True
      have "drop i lines = lines ! i # drop (Suc i) lines"
        using True by (simp add: Cons_nth_drop_Suc)
      moreover have "drop (Suc i) lines = lines ! (i + 1) # drop (i + 2) lines"
        using next_in by (simp add: Cons_nth_drop_Suc)
      ultimately have d: "drop i lines = lines ! i # lines ! (i + 1) # drop (i + 2) lines"
        by simp
      have "loop lines i r =
          loop lines (i + 2) (r @ (if retained (lines ! i, lines ! (i + 1))
             then render (lines ! i, lines ! (i + 1)) @ [NL] else []))"
        using True next_in
        by (subst loop.simps) (simp add: at_def body_step Let_def del: append_assoc)
      also have "\<dots> = Some (r @ emit (drop i lines))"
        by (simp only: less [OF smaller] d emit.simps append_assoc)
      finally show ?thesis .
    qed
  qed
qed

lemma pairs_by_position_Cons2:
  "pairs_by_position (k # v # rest) = (k, v) # pairs_by_position rest"
proof -
  have "[0..<Suc n] = 0 # map Suc [0..<n]" for n
    by (simp add: upt_conv_Cons map_Suc_upt del: upt_Suc)
  then show ?thesis
    by (simp add: pairs_by_position_def comp_def del: upt_Suc)
qed

lemma pairs_by_position_short:
  "pairs_by_position [] = []" "pairs_by_position [k] = []"
  by (simp_all add: pairs_by_position_def)

lemma emit_pairs:
  "emit ls = concat (map (\<lambda>p. render p @ [NL]) (filter retained (pairs_by_position ls)))"
  by (induction ls rule: emit.induct)
    (simp_all add: pairs_by_position_Cons2 pairs_by_position_short)

lemma concat_join_nl: "ls \<noteq> [] \<Longrightarrow> concat (map (\<lambda>l. l @ [NL]) ls) = join_nl ls @ [NL]"
  by (induction ls rule: join_nl.induct) simp_all

lemma join_nl_clean: "ls \<noteq> [] \<Longrightarrow> list_all clean ls \<Longrightarrow> clean (join_nl ls)"
proof (induction ls rule: join_nl.induct)
  case 1
  then show ?case by simp
next
  case (2 l)
  then show ?case by simp
next
  case (3 l m ls)
  then have "clean l" and "clean (join_nl (m # ls))"
    by simp_all
  then show ?case
    by (simp add: clean_def)
qed

lemma trim_emitted:
  assumes "list_all clean ls"
  shows "trim (concat (map (\<lambda>l. l @ [NL]) ls)) = join_nl ls"
proof (cases "ls = []")
  case True
  then show ?thesis by (simp add: trim_def)
next
  case False
  with assms have "clean (join_nl ls)"
    by (simp add: join_nl_clean)
  then have "trim ([] @ join_nl ls @ [NL]) = join_nl ls"
    by (intro trim_core) (simp_all add: clean_def is_ws_NL)
  then show ?thesis
    using False by (simp add: concat_join_nl)
qed

lemma clean_trim: "trim s \<noteq> [] \<Longrightarrow> clean (trim s)"
  by (simp add: clean_def trim_ends)

lemma clean_render: "retained p \<Longrightarrow> clean (render p)"
proof -
  assume "retained p"
  then have "clean (trim (fst p))" and "clean (trim (snd p))"
    by (simp_all add: retained_def clean_trim)
  then show ?thesis
    by (simp add: clean_def render_def js_colon_space)
qed

lemma format_lines_spec: "format_lines ls = Some (spec_output ls)"
proof -
  have "list_all clean (map render (filter retained (pairs_by_position ls)))"
    by (simp add: list_all_iff clean_render)
  then have "trim (emit ls) = spec_output ls"
    unfolding emit_pairs spec_output_def
    using trim_emitted [of "map render (filter retained (pairs_by_position ls))"]
    by (simp add: comp_def)
  then show ?thesis
    by (simp add: format_lines_def loop_emit)
qed

lemma format_spec: "format raw = Some (spec_output (filtered_lines raw))"
  by (simp add: format_def format_lines_spec)

section \<open>Splitting\<close>

lemma split_nl_not_Nil: "split_nl s \<noteq> []"
  by (induction s) (auto split: list.splits)

lemma split_nl_Cons_other:
  "c \<noteq> NL \<Longrightarrow> split_nl (c # cs) = (c # hd (split_nl cs)) # tl (split_nl cs)"
  using split_nl_not_Nil [of cs] by (cases "split_nl cs") simp_all

lemma split_nl_no_NL: "l \<in> set (split_nl s) \<Longrightarrow> NL \<notin> set l"
proof (induction s arbitrary: l)
  case Nil
  then show ?case by simp
next
  case (Cons c cs)
  show ?case
  proof (cases "c = NL")
    case True
    with Cons show ?thesis by auto
  next
    case False
    obtain m ms where ms: "split_nl cs = m # ms"
      using split_nl_not_Nil [of cs] by (cases "split_nl cs") auto
    with False Cons.prems have "l = c # m \<or> l \<in> set ms"
      by simp
    then show ?thesis
      using Cons.IH [of m] Cons.IH [of l] False ms by auto
  qed
qed

lemma split_nl_set: "l \<in> set (split_nl s) \<Longrightarrow> set l \<subseteq> set s"
proof (induction s arbitrary: l)
  case Nil
  then show ?case by simp
next
  case (Cons c cs)
  show ?case
  proof (cases "c = NL")
    case True
    with Cons show ?thesis by auto
  next
    case False
    obtain m ms where ms: "split_nl cs = m # ms"
      using split_nl_not_Nil [of cs] by (cases "split_nl cs") auto
    with False Cons.prems have "l = c # m \<or> l \<in> set ms"
      by simp
    then show ?thesis
      using Cons.IH [of m] Cons.IH [of l] ms by auto
  qed
qed

lemma split_nl_line: "NL \<notin> set l \<Longrightarrow> split_nl l = [l]"
  by (induction l) auto

lemma split_nl_line_NL: "NL \<notin> set l \<Longrightarrow> split_nl (l @ NL # s) = l # split_nl s"
  by (induction l) auto

lemma split_nl_join_nl:
  "rs \<noteq> [] \<Longrightarrow> \<forall>r\<in>set rs. NL \<notin> set r \<Longrightarrow> split_nl (join_nl rs) = rs"
proof (induction rs rule: join_nl.induct)
  case 1
  then show ?case by simp
next
  case (2 l)
  then show ?case by (simp add: split_nl_line)
next
  case (3 l m ls)
  then have "split_nl (join_nl (m # ls)) = m # ls"
    by simp
  moreover have "NL \<notin> set l"
    using 3 by simp
  ultimately show ?case
    by (simp add: split_nl_line_NL)
qed

lemma split_nl_append:
  "split_nl (s @ t) =
     butlast (split_nl s) @ [last (split_nl s) @ hd (split_nl t)] @ tl (split_nl t)"
proof (induction s)
  case Nil
  then show ?case using split_nl_not_Nil [of t] by simp
next
  case (Cons c s)
  obtain l ls where ls: "split_nl s = l # ls"
    using split_nl_not_Nil [of s] by (cases "split_nl s") auto
  show ?case
  proof (cases "c = NL")
    case True
    then show ?thesis using Cons ls by simp
  next
    case False
    show ?thesis
    proof (cases "ls = []")
      case True
      then show ?thesis using Cons ls False by simp
    next
      case nonempty: False
      then show ?thesis using Cons ls False by simp
    qed
  qed
qed

section \<open>Pairs\<close>

lemma pairs_by_position_append:
  fixes xs :: "jsstring list"
  shows "even (length xs) \<Longrightarrow>
    pairs_by_position (xs @ ys) = pairs_by_position xs @ pairs_by_position ys"
proof (induction xs rule: emit.induct)
  case (1 k v rest)
  then have "even (length rest)" by simp
  with 1 show ?case
    by (simp add: pairs_by_position_Cons2)
next
  case (2 k)
  then show ?case by simp
next
  case 3
  then show ?case by (simp add: pairs_by_position_short)
qed

lemma spec_output_odd:
  assumes "odd (length ls)"
  shows "spec_output ls = spec_output (butlast ls)"
proof -
  from assms have ne: "ls \<noteq> []" by auto
  with assms have "even (length (butlast ls))" by simp
  then have "pairs_by_position (butlast ls @ [last ls]) = pairs_by_position (butlast ls)"
    by (simp add: pairs_by_position_append pairs_by_position_short)
  with ne show ?thesis
    by (simp add: spec_output_def)
qed

lemma spec_output_drop_pair:
  assumes "even (length xs)" and "\<not> retained (k, v)"
  shows "spec_output (xs @ k # v # ys) = spec_output (xs @ ys)"
  using assms
  by (simp add: spec_output_def pairs_by_position_append pairs_by_position_Cons2)

lemma pairs_by_position_mem:
  assumes "p \<in> set (pairs_by_position ls)"
  shows "fst p \<in> set ls" and "snd p \<in> set ls"
proof -
  from assms obtain j where j: "j < length ls div 2"
    and p: "p = (ls ! (2 * j), ls ! (2 * j + 1))"
    by (auto simp: pairs_by_position_def)
  from j have "2 * j < length ls" and "2 * j + 1 < length ls"
    by arith+
  with p show "fst p \<in> set ls" and "snd p \<in> set ls"
    by simp_all
qed

lemma retained_count:
  "length (filter retained (pairs_by_position ls))
    \<le> length (filter (\<lambda>l. \<not> blank l) ls) div 2"
proof (induction ls rule: emit.induct)
  case (1 k v rest)
  then show ?case
    by (auto simp: pairs_by_position_Cons2 retained_def blank_def)
next
  case (2 k)
  then show ?case by (simp add: pairs_by_position_short)
next
  case 3
  then show ?case by (simp add: pairs_by_position_short)
qed

section \<open>Blank lines\<close>

lemma blank_iff: "blank l \<longleftrightarrow> list_all is_ws l"
  by (simp only: blank_def trim_eq_Nil_iff)

lemma blank_append: "blank (x @ y) \<longleftrightarrow> blank x \<and> blank y"
  by (simp add: blank_iff)

lemma split_nl_all_blank:
  assumes "list_all is_ws a"
  shows "\<forall>l\<in>set (split_nl a). blank l"
proof
  fix l
  assume "l \<in> set (split_nl a)"
  then have "set l \<subseteq> set a" by (rule split_nl_set)
  with assms show "blank l"
    by (auto simp: blank_iff list_all_iff)
qed

lemma filter_none: "\<forall>x\<in>set xs. \<not> P x \<Longrightarrow> filter P xs = []"
  by (induction xs) auto

lemma nonblank_count_prefix:
  assumes "list_all is_ws a"
  shows "length (filter (\<lambda>l. \<not> blank l) (split_nl (a @ t)))
    = length (filter (\<lambda>l. \<not> blank l) (split_nl t))"
proof -
  let ?nb = "\<lambda>l. \<not> blank l"
  have all: "\<forall>l\<in>set (split_nl a). blank l"
    using assms by (rule split_nl_all_blank)
  have "set (butlast (split_nl a)) \<subseteq> set (split_nl a)"
    by (auto dest: in_set_butlastD)
  with all have 1: "filter ?nb (butlast (split_nl a)) = []"
    by (intro filter_none) auto
  have 2: "blank (last (split_nl a))"
    using all split_nl_not_Nil [of a] by simp
  obtain l ls where t: "split_nl t = l # ls"
    using split_nl_not_Nil [of t] by (cases "split_nl t") auto
  show ?thesis
    by (simp add: split_nl_append [of a t] 1 2 t blank_append)
qed

lemma nonblank_count_suffix:
  assumes "list_all is_ws b"
  shows "length (filter (\<lambda>l. \<not> blank l) (split_nl (s @ b)))
    = length (filter (\<lambda>l. \<not> blank l) (split_nl s))"
proof -
  let ?nb = "\<lambda>l. \<not> blank l"
  have all: "\<forall>l\<in>set (split_nl b). blank l"
    using assms by (rule split_nl_all_blank)
  obtain l ls where b: "split_nl b = l # ls"
    using split_nl_not_Nil [of b] by (cases "split_nl b") auto
  with all have 1: "filter ?nb ls = []" and 2: "blank l"
    by (simp_all add: filter_none)
  have "split_nl s = butlast (split_nl s) @ [last (split_nl s)]"
    using split_nl_not_Nil [of s] by simp
  then have "filter ?nb (split_nl s) =
      filter ?nb (butlast (split_nl s)) @ filter ?nb [last (split_nl s)]"
    by (metis filter_append)
  then show ?thesis
    by (simp add: split_nl_append [of s b] 1 2 b blank_append)
qed

lemma nonblank_count_trim:
  "length (filter (\<lambda>l. \<not> blank l) (split_nl (trim raw)))
    = length (filter (\<lambda>l. \<not> blank l) (split_nl raw))"
proof -
  obtain a b where raw: "a @ trim raw @ b = raw"
    and a: "list_all is_ws a" and b: "list_all is_ws b"
    using trim_decomp by blast
  have "length (filter (\<lambda>l. \<not> blank l) (split_nl (a @ trim raw @ b)))
      = length (filter (\<lambda>l. \<not> blank l) (split_nl (trim raw)))"
    by (simp only: nonblank_count_prefix [OF a] nonblank_count_suffix [OF b])
  then show ?thesis by (simp only: raw)
qed

lemma nonblank_filtered:
  "filter (\<lambda>l. \<not> blank l) (filtered_lines raw) = filter (\<lambda>l. \<not> blank l) (split_nl (trim raw))"
proof -
  have "(\<lambda>l. Boolean_str l \<and> \<not> blank l) = (\<lambda>l. \<not> blank l)"
    by (rule ext) (auto simp: Boolean_str_def blank_iff)
  then show ?thesis
    by (simp add: filtered_lines_def)
qed

section \<open>The lines of the output\<close>

lemma set_trim: "set (trim s) \<subseteq> set s"
proof -
  obtain a b where "a @ trim s @ b = s"
    using trim_decomp by blast
  then have "set s = set a \<union> set (trim s) \<union> set b"
    by (metis set_append sup_assoc)
  then show ?thesis by blast
qed

lemma filtered_lines_no_NL: "l \<in> set (filtered_lines raw) \<Longrightarrow> NL \<notin> set l"
  by (auto simp: filtered_lines_def dest: split_nl_no_NL)

lemma render_no_NL:
  assumes "NL \<notin> set (fst p)" and "NL \<notin> set (snd p)"
  shows "NL \<notin> set (render p)"
  using assms set_trim [of "fst p"] set_trim [of "snd p"]
  by (auto simp: render_def js_colon_space)

lemma rendered_no_NL:
  "\<forall>r\<in>set (map render (filter retained (pairs_by_position (filtered_lines raw)))).
     NL \<notin> set r"
proof
  fix r
  assume "r \<in> set (map render (filter retained (pairs_by_position (filtered_lines raw))))"
  then obtain p where p: "p \<in> set (pairs_by_position (filtered_lines raw))"
    and r: "r = render p"
    by auto
  from p have "fst p \<in> set (filtered_lines raw)" and "snd p \<in> set (filtered_lines raw)"
    by (rule pairs_by_position_mem)+
  then have "NL \<notin> set (fst p)" and "NL \<notin> set (snd p)"
    by (simp_all add: filtered_lines_no_NL)
  then show "NL \<notin> set r"
    unfolding r by (rule render_no_NL)
qed

lemma rendered_clean:
  "list_all clean (map render (filter retained (pairs_by_position ls)))"
  by (simp add: list_all_iff clean_render)

lemma output_lines_spec:
  "output_lines (spec_output (filtered_lines raw)) =
     map render (filter retained (pairs_by_position (filtered_lines raw)))"
proof -
  let ?rs = "map render (filter retained (pairs_by_position (filtered_lines raw)))"
  show ?thesis
  proof (cases "?rs = []")
    case True
    then show ?thesis
      by (simp add: spec_output_def output_lines_def)
  next
    case False
    then have "clean (join_nl ?rs)"
      using rendered_clean by (rule join_nl_clean)
    then have "join_nl ?rs \<noteq> []"
      by (simp add: clean_def)
    moreover have "split_nl (join_nl ?rs) = ?rs"
      using False rendered_no_NL by (rule split_nl_join_nl)
    ultimately show ?thesis
      by (simp add: spec_output_def output_lines_def)
  qed
qed

lemma spec_output_end: "spec_output ls = [] \<or> \<not> is_ws (last (spec_output ls))"
proof (cases "map render (filter retained (pairs_by_position ls)) = []")
  case True
  then show ?thesis by (simp add: spec_output_def)
next
  case False
  then have "clean (join_nl (map render (filter retained (pairs_by_position ls))))"
    using rendered_clean by (rule join_nl_clean)
  then show ?thesis
    by (simp add: spec_output_def clean_def)
qed

section \<open>Filtering\<close>

lemma filter_position:
  assumes "i < length xs" and "P (xs ! i)"
  shows "length (filter P (take i xs)) < length (filter P xs)"
    and "filter P xs ! length (filter P (take i xs)) = xs ! i"
proof -
  have "xs = take i xs @ xs ! i # drop (Suc i) xs"
    using assms(1) by (rule id_take_nth_drop)
  then have "filter P xs = filter P (take i xs @ xs ! i # drop (Suc i) xs)"
    by (rule arg_cong)
  then have eq: "filter P xs = filter P (take i xs) @ xs ! i # filter P (drop (Suc i) xs)"
    using assms(2) by simp
  then have "length (filter P xs) =
      length (filter P (take i xs) @ xs ! i # filter P (drop (Suc i) xs))"
    by (rule arg_cong)
  then show "length (filter P (take i xs)) < length (filter P xs)"
    by simp
  have "(filter P (take i xs) @ xs ! i # filter P (drop (Suc i) xs))
      ! length (filter P (take i xs)) = xs ! i"
    by (rule nth_append_length)
  with eq show "filter P xs ! length (filter P (take i xs)) = xs ! i"
    by simp
qed

section \<open>Runs of line feeds\<close>

lemma split_nl_append_NL: "split_nl (x @ NL # y) = split_nl x @ split_nl y"
proof (induction x)
  case Nil
  then show ?case by simp
next
  case (Cons c x)
  obtain l ls where "split_nl x = l # ls"
    using split_nl_not_Nil [of x] by (cases "split_nl x") auto
  with Cons show ?case by simp
qed

lemma filter_split_double_NL:
  "filter Boolean_str (split_nl (u @ NL # NL # v)) = filter Boolean_str (split_nl (u @ NL # v))"
proof -
  have "split_nl (u @ NL # NL # v) = split_nl u @ [] # split_nl v"
    by (simp add: split_nl_append_NL)
  then show ?thesis
    by (simp add: split_nl_append_NL Boolean_str_def)
qed

lemma dropWhile_double_NL:
  "dropWhile is_ws (u @ NL # NL # v) = dropWhile is_ws (u @ NL # v)
   \<or> (\<exists>u'. dropWhile is_ws (u @ NL # NL # v) = u' @ NL # NL # v
          \<and> dropWhile is_ws (u @ NL # v) = u' @ NL # v)"
proof (cases "list_all is_ws u")
  case True
  then have "dropWhile is_ws (u @ w) = dropWhile is_ws w" for w
    by (intro dropWhile_append2) (simp add: list_all_iff)
  then show ?thesis
    by (simp add: is_ws_NL)
next
  case False
  then obtain x where "x \<in> set u" and "\<not> is_ws x"
    by (auto simp: list_all_iff)
  then have "dropWhile is_ws (u @ w) = dropWhile is_ws u @ w" for w
    by (rule dropWhile_append1)
  then show ?thesis by blast
qed

lemma trim_double_NL:
  "trim (s @ NL # NL # t) = trim (s @ NL # t)
   \<or> (\<exists>u v. trim (s @ NL # NL # t) = u @ NL # NL # v \<and> trim (s @ NL # t) = u @ NL # v)"
proof -
  consider (same) "dropWhile is_ws (s @ NL # NL # t) = dropWhile is_ws (s @ NL # t)"
    | (front) u where "dropWhile is_ws (s @ NL # NL # t) = u @ NL # NL # t"
        and "dropWhile is_ws (s @ NL # t) = u @ NL # t"
    using dropWhile_double_NL [of s t] by blast
  then show ?thesis
  proof cases
    case same
    then have "trim (s @ NL # NL # t) = trim (s @ NL # t)"
      by (simp only: trim_def)
    then show ?thesis by blast
  next
    case front
    have r2: "rev (u @ NL # NL # t) = rev t @ NL # NL # rev u"
      and r1: "rev (u @ NL # t) = rev t @ NL # rev u"
      by simp_all
    consider (same2) "dropWhile is_ws (rev t @ NL # NL # rev u)
          = dropWhile is_ws (rev t @ NL # rev u)"
      | (rear) w where "dropWhile is_ws (rev t @ NL # NL # rev u) = w @ NL # NL # rev u"
          and "dropWhile is_ws (rev t @ NL # rev u) = w @ NL # rev u"
      using dropWhile_double_NL [of "rev t" "rev u"] by blast
    then show ?thesis
    proof cases
      case same2
      then have "trim (s @ NL # NL # t) = trim (s @ NL # t)"
        by (simp only: trim_def front r1 r2)
      then show ?thesis by blast
    next
      case rear
      have "trim (s @ NL # NL # t) = rev (w @ NL # NL # rev u)"
        by (simp only: trim_def front r2 rear)
      then have 2: "trim (s @ NL # NL # t) = u @ NL # NL # rev w"
        by simp
      have "trim (s @ NL # t) = rev (w @ NL # rev u)"
        by (simp only: trim_def front r1 rear)
      then have 1: "trim (s @ NL # t) = u @ NL # rev w"
        by simp
      from 1 2 show ?thesis by blast
    qed
  qed
qed

lemma filtered_lines_double_NL:
  "filtered_lines (s @ NL # NL # t) = filtered_lines (s @ NL # t)"
proof -
  consider (same) "trim (s @ NL # NL # t) = trim (s @ NL # t)"
    | (inner) u v where "trim (s @ NL # NL # t) = u @ NL # NL # v"
        and "trim (s @ NL # t) = u @ NL # v"
    using trim_double_NL [of s t] by blast
  then show ?thesis
  proof cases
    case same
    then show ?thesis by (simp only: filtered_lines_def)
  next
    case inner
    then show ?thesis
      by (simp only: filtered_lines_def filter_split_double_NL)
  qed
qed

lemma filtered_lines_run_NL:
  "filtered_lines (s @ replicate n NL @ NL # t) = filtered_lines (s @ NL # t)"
proof (induction n)
  case 0
  then show ?case by simp
next
  case (Suc n)
  have "s @ replicate (Suc n) NL @ NL # t = (s @ replicate n NL) @ NL # NL # t"
    by (simp add: replicate_app_Cons_same)
  then have "filtered_lines (s @ replicate (Suc n) NL @ NL # t)
      = filtered_lines ((s @ replicate n NL) @ NL # NL # t)"
    by (rule arg_cong)
  also have "\<dots> = filtered_lines ((s @ replicate n NL) @ NL # t)"
    by (rule filtered_lines_double_NL)
  also have "\<dots> = filtered_lines (s @ NL # t)"
    using Suc by simp
  finally show ?case .
qed

section \<open>Evaluation on concrete inputs\<close>

lemmas char_defs = js_def is_ws_def isWhiteSpace_def isLineTerminator_def

lemmas code_defs = char_defs format_def format_lines_def filtered_lines_def loop.simps trim_def
  Boolean_str_def at_def opt_trim_def truthy_def to_str_def template_def

lemmas spec_defs = char_defs filtered_lines_def trim_def Boolean_str_def spec_output_def
  pairs_by_position_def retained_def render_def

section \<open>Positional pairing and order\<close>

text \<open>
  Claim C1. For every input, the output of \<open>format\<close> is built from the filtered lines
  paired strictly by position (entry \<open>2j\<close> with entry \<open>2j + 1\<close>, for every \<open>j\<close> below
  half the length): the retained pairs are rendered and joined in that same order. In
  particular \<open>format("A\nB\nC\nD")\<close> is \<open>"A: B\nC: D"\<close>.
\<close>

theorem format_pairs_by_position:
  "format raw =
     Some (join_nl (map render (filter retained (pairs_by_position (filtered_lines raw)))))
   \<and> pairs_by_position (filtered_lines raw) =
       map (\<lambda>j. (filtered_lines raw ! (2 * j), filtered_lines raw ! (2 * j + 1)))
         [0..<length (filtered_lines raw) div 2]
   \<and> format (js ''A\<newline>B\<newline>C\<newline>D'') = Some (js ''A: B\<newline>C: D'')"
proof (intro conjI)
  show "format raw =
     Some (join_nl (map render (filter retained (pairs_by_position (filtered_lines raw)))))"
    using format_spec [of raw] by (simp only: spec_output_def)
  show "pairs_by_position (filtered_lines raw) =
       map (\<lambda>j. (filtered_lines raw ! (2 * j), filtered_lines raw ! (2 * j + 1)))
         [0..<length (filtered_lines raw) div 2]"
    by (simp only: pairs_by_position_def)
  show "format (js ''A\<newline>B\<newline>C\<newline>D'') = Some (js ''A: B\<newline>C: D'')"
    by (simp add: code_defs)
qed

theorem format_pairs_by_position_witness:
  "format (js ''K\<newline>V\<newline>X'') = Some (js ''K: V'')"
  using format_pairs_by_position [of "js ''K\<newline>V\<newline>X''"]
  by (simp add: spec_defs)

section \<open>Empty lines\<close>

text \<open>
  Claim C3. Empty lines are discarded before pairing. For every input, the filtered
  sequence is the sequence of lines of the trimmed input with exactly the empty ones
  removed, so it has no empty entry, and the pairing works on it alone. A run of empty
  lines between two lines therefore counts as a single line break: any number of
  additional line feeds after a line feed changes neither the filtered sequence nor the
  output, and a name is paired with the next non-empty line. In particular, for the
  input \<open>"A\n\nB"\<close> the split gives the three pieces \<open>A\<close>, the empty string and \<open>B\<close>,
  the filtered sequence is \<open>A\<close>, \<open>B\<close>, and the output is \<open>"A: B"\<close>.
\<close>

theorem format_skips_empty_line:
  "filtered_lines raw = filter (\<lambda>l. l \<noteq> []) (split_nl (trim raw))
   \<and> [] \<notin> set (filtered_lines raw)
   \<and> format raw = format_lines (filter (\<lambda>l. l \<noteq> []) (split_nl (trim raw)))
   \<and> filtered_lines (s @ replicate n NL @ NL # t) = filtered_lines (s @ NL # t)
   \<and> format (s @ replicate n NL @ NL # t) = format (s @ NL # t)
   \<and> split_nl (trim (js ''A\<newline>\<newline>B'')) = [js ''A'', [], js ''B'']
   \<and> filtered_lines (js ''A\<newline>\<newline>B'') = [js ''A'', js ''B'']
   \<and> format (js ''A\<newline>\<newline>B'') = Some (js ''A: B'')"
proof -
  have "Boolean_str = (\<lambda>l. l \<noteq> [])"
    by (rule ext) (simp only: Boolean_str_def)
  then have fl: "filtered_lines raw = filter (\<lambda>l. l \<noteq> []) (split_nl (trim raw))"
    by (simp only: filtered_lines_def)
  have no_empty: "[] \<notin> set (filtered_lines raw)"
    by (simp add: fl)
  have fmt: "format raw = format_lines (filter (\<lambda>l. l \<noteq> []) (split_nl (trim raw)))"
    by (simp only: format_def fl)
  have run: "filtered_lines (s @ replicate n NL @ NL # t) = filtered_lines (s @ NL # t)"
    by (rule filtered_lines_run_NL)
  then have run_fmt: "format (s @ replicate n NL @ NL # t) = format (s @ NL # t)"
    by (simp only: format_def)
  have ex: "split_nl (trim (js ''A\<newline>\<newline>B'')) = [js ''A'', [], js ''B'']
     \<and> filtered_lines (js ''A\<newline>\<newline>B'') = [js ''A'', js ''B'']
     \<and> format (js ''A\<newline>\<newline>B'') = Some (js ''A: B'')"
    by (simp add: code_defs)
  from fl no_empty fmt run run_fmt ex show ?thesis
    by (intro conjI) simp_all
qed

theorem format_skips_empty_line_witness:
  "js ''A'' @ replicate 2 NL @ NL # js ''B'' = js ''A\<newline>\<newline>\<newline>B''
   \<and> filtered_lines (js ''A\<newline>\<newline>\<newline>B'') = [js ''A'', js ''B'']
   \<and> format (js ''A\<newline>\<newline>\<newline>B'') = Some (js ''A: B'')"
proof -
  have eq: "js ''A'' @ replicate 2 NL @ NL # js ''B'' = js ''A\<newline>\<newline>\<newline>B''"
    by (simp add: js_def numeral_2_eq_2)
  have "filtered_lines (js ''A'' @ replicate 2 NL @ NL # js ''B'')
        = filtered_lines (js ''A'' @ NL # js ''B'')"
    and "format (js ''A'' @ replicate 2 NL @ NL # js ''B'')
        = format (js ''A'' @ NL # js ''B'')"
    using format_skips_empty_line [where s = "js ''A''" and n = 2 and t = "js ''B''"]
    by blast+
  moreover have "filtered_lines (js ''A'' @ NL # js ''B'') = [js ''A'', js ''B'']"
    by (simp add: spec_defs)
  moreover have "format (js ''A'' @ NL # js ''B'') = Some (js ''A: B'')"
    by (simp add: code_defs)
  ultimately show ?thesis
    using eq by simp
qed

text \<open>
  Claim C6. \<open>format\<close> applied to the empty string returns the empty string.
\<close>

theorem format_empty: "format [] = Some []"
  by (simp add: code_defs)

section \<open>Trimming of names and values\<close>

text \<open>
  Claim C4. For every input, each retained pair \<open>p\<close> is emitted as the trimmed name, a
  colon and a space, and the trimmed value; the trimmed name and value are what remains
  of the line after whitespace is removed at both ends, and they neither begin nor end
  with whitespace. In particular \<open>format(" A \n B ")\<close> is \<open>"A: B"\<close>.
\<close>

theorem format_trims_name_and_value:
  "format raw =
     Some (join_nl (map (\<lambda>p. trim (fst p) @ js '': '' @ trim (snd p))
       (filter retained (pairs_by_position (filtered_lines raw)))))
   \<and> (\<exists>a b. a @ trim s @ b = s \<and> list_all is_ws a \<and> list_all is_ws b)
   \<and> (retained p \<longrightarrow> clean (trim (fst p)) \<and> clean (trim (snd p)))
   \<and> format (js '' A \<newline> B '') = Some (js ''A: B'')"
proof (intro conjI)
  have "render = (\<lambda>p. trim (fst p) @ js '': '' @ trim (snd p))"
    by (rule ext) (simp only: render_def)
  then show "format raw =
     Some (join_nl (map (\<lambda>p. trim (fst p) @ js '': '' @ trim (snd p))
       (filter retained (pairs_by_position (filtered_lines raw)))))"
    using format_spec [of raw] by (simp only: spec_output_def)
  show "\<exists>a b. a @ trim s @ b = s \<and> list_all is_ws a \<and> list_all is_ws b"
    by (rule trim_decomp)
  show "retained p \<longrightarrow> clean (trim (fst p)) \<and> clean (trim (snd p))"
    by (simp add: retained_def clean_trim)
  show "format (js '' A \<newline> B '') = Some (js ''A: B'')"
    by (simp add: code_defs)
qed

theorem format_trims_name_and_value_witness:
  "retained (js '' K '', js ''V  '')
   \<and> clean (trim (js '' K '')) \<and> clean (trim (js ''V  ''))
   \<and> format (js '' K \<newline>V  '') = Some (js ''K: V'')"
  using format_trims_name_and_value
    [of "js '' K \<newline>V  ''" "js '' K ''" "(js '' K '', js ''V  '')"]
  by (simp add: spec_defs)

section \<open>Whitespace-only lines\<close>

text \<open>
  Claim C2, as stated: every whitespace-only line of the input, wherever it occurs, is
  kept as an entry of the filtered sequence and takes part in the pairing. It fails for
  a whitespace-only line at the start of the input: the input \<open>" \nA\nB"\<close> has the three
  lines \<open>" "\<close>, \<open>A\<close> and \<open>B\<close>, the first of them non-empty and made of whitespace, but the
  filtered sequence is \<open>A\<close>, \<open>B\<close> and the output is \<open>"A: B"\<close>. Had the line been kept,
  it would have been paired with \<open>A\<close>, and the output would have been empty.
\<close>

theorem whitespace_line_kept_counterexample:
  "split_nl (js '' \<newline>A\<newline>B'') = [js '' '', js ''A'', js ''B'']
   \<and> js '' '' \<noteq> [] \<and> list_all is_ws (js '' '')
   \<and> js '' '' \<notin> set (filtered_lines (js '' \<newline>A\<newline>B''))
   \<and> filtered_lines (js '' \<newline>A\<newline>B'') = [js ''A'', js ''B'']
   \<and> format (js '' \<newline>A\<newline>B'') = Some (js ''A: B'')
   \<and> format_lines (filter Boolean_str (split_nl (js '' \<newline>A\<newline>B''))) = Some []"
  by (simp add: code_defs)

text \<open>
  Claim C2, amended. The filter acts on the lines of the trimmed input and removes
  exactly the empty ones. A non-empty whitespace-only line of the trimmed input is an
  entry of the filtered sequence, at the position given by the number of non-empty
  lines before it. It takes part in the pairing untrimmed: in a name slot or in a value
  slot it uses up the other line of its pair, and the pair is dropped when it is
  trimmed.
\<close>

theorem filter_keeps_whitespace_lines:
  "filtered_lines raw = filter (\<lambda>l. l \<noteq> []) (split_nl (trim raw))
   \<and> (l \<in> set (split_nl (trim raw)) \<and> l \<noteq> [] \<and> list_all is_ws l \<longrightarrow>
        l \<in> set (filtered_lines raw))
   \<and> (i < length (split_nl (trim raw)) \<and> split_nl (trim raw) ! i \<noteq> [] \<longrightarrow>
        length (filter (\<lambda>l. l \<noteq> []) (take i (split_nl (trim raw)))) < length (filtered_lines raw)
        \<and> filtered_lines raw ! length (filter (\<lambda>l. l \<noteq> []) (take i (split_nl (trim raw))))
            = split_nl (trim raw) ! i)
   \<and> (filtered_lines raw = xs @ w # v # ys \<and> even (length xs) \<and> list_all is_ws w \<longrightarrow>
        format raw = format_lines (xs @ ys))
   \<and> (filtered_lines raw = xs @ k # w # ys \<and> even (length xs) \<and> list_all is_ws w \<longrightarrow>
        format raw = format_lines (xs @ ys))"
proof -
  have "Boolean_str = (\<lambda>l. l \<noteq> [])"
    by (rule ext) (simp only: Boolean_str_def)
  then have fl: "filtered_lines raw = filter (\<lambda>l. l \<noteq> []) (split_nl (trim raw))"
    by (simp only: filtered_lines_def)
  have mem: "l \<in> set (split_nl (trim raw)) \<and> l \<noteq> [] \<and> list_all is_ws l \<longrightarrow>
        l \<in> set (filtered_lines raw)"
    by (simp add: fl)
  have pos: "i < length (split_nl (trim raw)) \<and> split_nl (trim raw) ! i \<noteq> [] \<longrightarrow>
        length (filter (\<lambda>l. l \<noteq> []) (take i (split_nl (trim raw)))) < length (filtered_lines raw)
        \<and> filtered_lines raw ! length (filter (\<lambda>l. l \<noteq> []) (take i (split_nl (trim raw))))
            = split_nl (trim raw) ! i"
    unfolding fl
    using filter_position [of i "split_nl (trim raw)" "\<lambda>l. l \<noteq> []"] by blast
  have name_slot: "filtered_lines raw = xs @ w # v # ys \<and> even (length xs) \<and> list_all is_ws w \<longrightarrow>
        format raw = format_lines (xs @ ys)"
  proof
    assume a: "filtered_lines raw = xs @ w # v # ys \<and> even (length xs) \<and> list_all is_ws w"
    then have "\<not> retained (w, v)"
      by (simp add: retained_def trim_eq_Nil_iff)
    with a show "format raw = format_lines (xs @ ys)"
      by (simp add: format_spec format_lines_spec spec_output_drop_pair)
  qed
  have value_slot: "filtered_lines raw = xs @ k # w # ys \<and> even (length xs) \<and> list_all is_ws w \<longrightarrow>
        format raw = format_lines (xs @ ys)"
  proof
    assume a: "filtered_lines raw = xs @ k # w # ys \<and> even (length xs) \<and> list_all is_ws w"
    then have "\<not> retained (k, w)"
      by (simp add: retained_def trim_eq_Nil_iff)
    with a show "format raw = format_lines (xs @ ys)"
      by (simp add: format_spec format_lines_spec spec_output_drop_pair)
  qed
  from fl mem pos name_slot value_slot show ?thesis
    by (intro conjI)
qed

theorem filter_keeps_whitespace_lines_witness:
  "split_nl (trim (js ''A\<newline> \<newline>B\<newline>C'')) = [js ''A'', js '' '', js ''B'', js ''C'']
   \<and> js '' '' \<noteq> [] \<and> list_all is_ws (js '' '')
   \<and> js '' '' \<in> set (filtered_lines (js ''A\<newline> \<newline>B\<newline>C''))
   \<and> filtered_lines (js ''A\<newline> \<newline>B\<newline>C'') ! 1 = js '' ''
   \<and> filtered_lines (js ''A\<newline> \<newline>B\<newline>C'') = [] @ js ''A'' # js '' '' # [js ''B'', js ''C'']
   \<and> format (js ''A\<newline> \<newline>B\<newline>C'') = Some (js ''B: C'')
   \<and> filtered_lines (js ''K\<newline>V\<newline> \<newline>B'') = [js ''K'', js ''V''] @ js '' '' # js ''B'' # []
   \<and> format (js ''K\<newline>V\<newline> \<newline>B'') = Some (js ''K: V'')"
proof -
  let ?raw = "js ''A\<newline> \<newline>B\<newline>C''"
  let ?raw2 = "js ''K\<newline>V\<newline> \<newline>B''"
  have sp: "split_nl (trim ?raw) = [js ''A'', js '' '', js ''B'', js ''C'']"
    by (simp add: spec_defs)
  have ne: "js '' '' \<noteq> []" and ws: "list_all is_ws (js '' '')"
    by (simp_all add: char_defs)
  have fl: "filtered_lines ?raw = [] @ js ''A'' # js '' '' # [js ''B'', js ''C'']"
    by (simp add: spec_defs)
  have fl2: "filtered_lines ?raw2 = [js ''K'', js ''V''] @ js '' '' # js ''B'' # []"
    by (simp add: spec_defs)
  have "js '' '' \<in> set (split_nl (trim ?raw))"
    by (simp add: sp)
  then have mem: "js '' '' \<in> set (filtered_lines ?raw)"
    using filter_keeps_whitespace_lines [where raw = ?raw and l = "js '' ''"] ne ws by blast
  have "1 < length (split_nl (trim ?raw)) \<and> split_nl (trim ?raw) ! 1 \<noteq> []"
    unfolding sp by (simp add: js_def)
  then have "filtered_lines ?raw
      ! length (filter (\<lambda>l. l \<noteq> []) (take 1 (split_nl (trim ?raw)))) = split_nl (trim ?raw) ! 1"
    using filter_keeps_whitespace_lines [where raw = ?raw and i = 1] by blast
  moreover have "length (filter (\<lambda>l. l \<noteq> []) (take 1 (split_nl (trim ?raw)))) = 1"
    unfolding sp by (simp add: js_def)
  moreover have "split_nl (trim ?raw) ! 1 = js '' ''"
    unfolding sp by simp
  ultimately have pos: "filtered_lines ?raw ! 1 = js '' ''"
    by simp
  have "format ?raw = format_lines ([] @ [js ''B'', js ''C''])"
    using filter_keeps_whitespace_lines
      [where raw = ?raw and xs = "[]" and k = "js ''A''" and w = "js '' ''"
         and ys = "[js ''B'', js ''C'']"] fl ws
    by simp
  also have "\<dots> = Some (js ''B: C'')"
    by (simp add: code_defs)
  finally have out: "format ?raw = Some (js ''B: C'')" .
  have "format ?raw2 = format_lines ([js ''K'', js ''V''] @ [])"
    using filter_keeps_whitespace_lines
      [where raw = ?raw2 and xs = "[js ''K'', js ''V'']" and w = "js '' ''"
         and v = "js ''B''" and ys = "[]"] fl2 ws
    by simp
  also have "\<dots> = Some (js ''K: V'')"
    by (simp add: code_defs)
  finally have out2: "format ?raw2 = Some (js ''K: V'')" .
  from sp ne ws mem pos fl out fl2 out2 show ?thesis
    by (intro conjI)
qed

section \<open>Incomplete pairs\<close>

text \<open>
  Claim C5. For every input whose filtered sequence has odd length, the output is the
  one computed without the final, unpaired entry. A pair at positions \<open>2j\<close>, \<open>2j + 1\<close>
  whose name or value trims to the empty string leaves no trace in the output: the
  output is the one computed without these two entries. In every case \<open>format\<close> returns a
  string. In particular \<open>format("OnlyKey")\<close> is the empty string.
\<close>

theorem format_drops_incomplete_pairs:
  "(odd (length (filtered_lines raw)) \<longrightarrow>
      format raw = format_lines (butlast (filtered_lines raw)))
   \<and> (filtered_lines raw = xs @ k # v # ys \<and> even (length xs)
        \<and> (trim k = [] \<or> trim v = []) \<longrightarrow>
      format raw = format_lines (xs @ ys))
   \<and> (\<exists>out. format raw = Some out)
   \<and> format (js ''OnlyKey'') = Some []"
proof (intro conjI impI)
  assume "odd (length (filtered_lines raw))"
  then show "format raw = format_lines (butlast (filtered_lines raw))"
    by (simp add: format_spec format_lines_spec spec_output_odd)
next
  assume a: "filtered_lines raw = xs @ k # v # ys \<and> even (length xs)
    \<and> (trim k = [] \<or> trim v = [])"
  then have "\<not> retained (k, v)"
    by (auto simp: retained_def)
  with a show "format raw = format_lines (xs @ ys)"
    by (simp add: format_spec format_lines_spec spec_output_drop_pair)
next
  show "\<exists>out. format raw = Some out"
    by (simp add: format_spec)
next
  show "format (js ''OnlyKey'') = Some []"
    by (simp add: code_defs)
qed

theorem format_drops_incomplete_pairs_witness:
  "odd (length (filtered_lines (js ''A\<newline>B\<newline>C'')))
   \<and> format (js ''A\<newline>B\<newline>C'') = Some (js ''A: B'')
   \<and> filtered_lines (js ''A\<newline>B\<newline> \<newline>C\<newline>D\<newline>E'') =
       [js ''A'', js ''B''] @ js '' '' # js ''C'' # [js ''D'', js ''E'']
   \<and> even (length [js ''A'', js ''B''])
   \<and> trim (js '' '') = []
   \<and> format (js ''A\<newline>B\<newline> \<newline>C\<newline>D\<newline>E'') =
       Some (js ''A: B\<newline>D: E'')"
proof -
  have odd3: "odd (length (filtered_lines (js ''A\<newline>B\<newline>C'')))"
    by (simp add: spec_defs)
  have fl: "filtered_lines (js ''A\<newline>B\<newline> \<newline>C\<newline>D\<newline>E'') =
       [js ''A'', js ''B''] @ js '' '' # js ''C'' # [js ''D'', js ''E'']"
    by (simp add: spec_defs)
  have ev: "even (length [js ''A'', js ''B''])"
    by simp
  have tr: "trim (js '' '') = []"
    by (simp add: spec_defs)
  have "format (js ''A\<newline>B\<newline>C'') =
      format_lines (butlast (filtered_lines (js ''A\<newline>B\<newline>C'')))"
    using format_drops_incomplete_pairs [of "js ''A\<newline>B\<newline>C''"] odd3
    by blast
  also have "\<dots> = Some (js ''A: B'')"
    by (simp add: code_defs)
  finally have 1: "format (js ''A\<newline>B\<newline>C'') = Some (js ''A: B'')" .
  have "format (js ''A\<newline>B\<newline> \<newline>C\<newline>D\<newline>E'') =
      format_lines ([js ''A'', js ''B''] @ [js ''D'', js ''E''])"
    using format_drops_incomplete_pairs
      [of "js ''A\<newline>B\<newline> \<newline>C\<newline>D\<newline>E''"
          "[js ''A'', js ''B'']" "js '' ''" "js ''C''" "[js ''D'', js ''E'']"] fl ev tr
    by blast
  also have "\<dots> = Some (js ''A: B\<newline>D: E'')"
    by (simp add: code_defs)
  finally have 2: "format (js ''A\<newline>B\<newline> \<newline>C\<newline>D\<newline>E'') =
       Some (js ''A: B\<newline>D: E'')" .
  from odd3 1 fl ev tr 2 show ?thesis by blast
qed

section \<open>Totality and purity\<close>

text \<open>
  Claim C8. For every input string the loop terminates and \<open>format\<close> returns a string;
  \<open>formatHeaders\<close> returns the page with only the output area replaced, by the value of
  \<open>format\<close> at the input area; pages with the same input area get the same output area,
  whatever the output area held before.
\<close>

theorem format_total_and_pure:
  "(\<exists>out. format raw = Some out)
   \<and> (\<exists>out. format (inputHeaders p) = Some out
         \<and> formatHeaders p = Some (p\<lparr>outputHeaders := out\<rparr>))
   \<and> (inputHeaders p = inputHeaders q \<longrightarrow>
        map_option outputHeaders (formatHeaders p) = map_option outputHeaders (formatHeaders q))"
  by (simp add: formatHeaders_def format_spec)

theorem format_total_and_pure_witness:
  "inputHeaders \<lparr>inputHeaders = js ''OnlyKey'', outputHeaders = js ''old''\<rparr> =
     inputHeaders \<lparr>inputHeaders = js ''OnlyKey'', outputHeaders = []\<rparr>
   \<and> map_option outputHeaders
        (formatHeaders \<lparr>inputHeaders = js ''OnlyKey'', outputHeaders = js ''old''\<rparr>) = Some []"
proof -
  let ?p = "\<lparr>inputHeaders = js ''OnlyKey'', outputHeaders = js ''old''\<rparr>"
  let ?q = "\<lparr>inputHeaders = js ''OnlyKey'', outputHeaders = []\<rparr>"
  have same: "inputHeaders ?p = inputHeaders ?q"
    by simp
  have "map_option outputHeaders (formatHeaders ?p) = map_option outputHeaders (formatHeaders ?q)"
    using format_total_and_pure [of _ ?p ?q] same by blast
  also have "\<dots> = Some []"
    by (simp add: formatHeaders_def code_defs)
  finally show ?thesis
    using same by blast
qed

section \<open>The trim of the whole input\<close>

text \<open>
  Claim C9. The input is trimmed as a whole before it is split: whitespace before and
  after an input, line feeds and whitespace-only lines included, changes neither the
  filtered sequence nor the output, and \<open>format\<close> of an input is \<open>format\<close> of the
  trimmed input. For example \<open>format(" \nA\nB")\<close> is \<open>"A: B"\<close>.
\<close>

theorem format_trims_whole_input:
  "(list_all is_ws a \<and> list_all is_ws b \<longrightarrow>
      filtered_lines (a @ s @ b) = filtered_lines s \<and> format (a @ s @ b) = format s)
   \<and> filtered_lines raw = filter Boolean_str (split_nl (trim raw))
   \<and> format raw = format (trim raw)
   \<and> format (js '' \<newline>A\<newline>B'') = Some (js ''A: B'')"
proof (intro conjI impI)
  assume "list_all is_ws a \<and> list_all is_ws b"
  then have "trim (a @ s @ b) = trim s"
    by (simp add: trim_ws_append)
  then show "filtered_lines (a @ s @ b) = filtered_lines s"
    by (simp only: filtered_lines_def)
  then show "format (a @ s @ b) = format s"
    by (simp only: format_def)
next
  show "filtered_lines raw = filter Boolean_str (split_nl (trim raw))"
    by (simp only: filtered_lines_def)
  show "format raw = format (trim raw)"
    by (simp only: format_def filtered_lines_def trim_trim)
  show "format (js '' \<newline>A\<newline>B'') = Some (js ''A: B'')"
    by (simp add: code_defs)
qed

theorem format_trims_whole_input_witness:
  "list_all is_ws (js '' \<newline>\<newline>'') \<and> list_all is_ws (js ''\<newline>  \<newline>'')
   \<and> filtered_lines (js '' \<newline>\<newline>'' @ js ''K\<newline>V'' @ js ''\<newline>  \<newline>'') =
       [js ''K'', js ''V'']
   \<and> format (js '' \<newline>\<newline>'' @ js ''K\<newline>V'' @ js ''\<newline>  \<newline>'') =
       Some (js ''K: V'')"
proof -
  have a: "list_all is_ws (js '' \<newline>\<newline>'')" and b: "list_all is_ws (js ''\<newline>  \<newline>'')"
    by (simp_all add: char_defs)
  have "filtered_lines (js '' \<newline>\<newline>'' @ js ''K\<newline>V'' @ js ''\<newline>  \<newline>'') =
      filtered_lines (js ''K\<newline>V'')"
    and "format (js '' \<newline>\<newline>'' @ js ''K\<newline>V'' @ js ''\<newline>  \<newline>'') =
      format (js ''K\<newline>V'')"
    using format_trims_whole_input
      [of "js '' \<newline>\<newline>''" "js ''\<newline>  \<newline>''" "js ''K\<newline>V''"] a b
    by blast+
  moreover have "filtered_lines (js ''K\<newline>V'') = [js ''K'', js ''V'']"
    by (simp add: spec_defs)
  moreover have "format (js ''K\<newline>V'') = Some (js ''K: V'')"
    by (simp add: code_defs)
  ultimately show ?thesis
    using a b by simp
qed

section \<open>The number and the shape of the output lines\<close>

text \<open>
  Claim C7. For every input, \<open>format\<close> returns an output whose number of lines is at
  most half the number (rounded down) of the lines of the input that do not trim to the
  empty string.
\<close>

theorem format_line_count_bound:
  "\<exists>out. format raw = Some out \<and> line_count out \<le> length (nonblank_lines raw) div 2"
proof -
  have "line_count (spec_output (filtered_lines raw))
      = length (filter retained (pairs_by_position (filtered_lines raw)))"
    by (simp add: line_count_def output_lines_spec)
  also have "\<dots> \<le> length (filter (\<lambda>l. \<not> blank l) (filtered_lines raw)) div 2"
    by (rule retained_count)
  also have "\<dots> = length (nonblank_lines raw) div 2"
    by (simp only: nonblank_filtered nonblank_count_trim nonblank_lines_def)
  finally show ?thesis
    by (simp add: format_spec)
qed

theorem format_line_count_bound_witness:
  "format (js '' \<newline>A\<newline> \<newline>B\<newline>C\<newline>'') = Some (js ''B: C'')
   \<and> line_count (js ''B: C'') = 1
   \<and> length (nonblank_lines (js '' \<newline>A\<newline> \<newline>B\<newline>C\<newline>'')) = 3"
proof -
  let ?raw = "js '' \<newline>A\<newline> \<newline>B\<newline>C\<newline>''"
  obtain out where out: "format ?raw = Some out"
    and le: "line_count out \<le> length (nonblank_lines ?raw) div 2"
    using format_line_count_bound [of ?raw] by blast
  have n: "length (nonblank_lines ?raw) = 3"
    by (simp add: nonblank_lines_def blank_def char_defs trim_def)
  have f: "format ?raw = Some (js ''B: C'')"
    by (simp add: code_defs)
  with out have "out = js ''B: C''" by simp
  moreover have "0 < line_count (js ''B: C'')"
    by (simp add: line_count_def output_lines_def js_def)
  ultimately have "line_count (js ''B: C'') = 1"
    using le n by simp
  with f n show ?thesis by blast
qed

text \<open>
  Claim C10. For every input, the lines of the output of \<open>format\<close> are exactly the
  renderings of the retained pairs, so each one is a name, a colon and a space, and a
  value, where name and value are non-empty and neither begin nor end with whitespace.
  No line of the output is blank, and the output, when not empty, does not end with a
  line feed nor any other whitespace.
\<close>

theorem format_output_shape:
  "\<exists>out. format raw = Some out
     \<and> output_lines out = map render (filter retained (pairs_by_position (filtered_lines raw)))
     \<and> (\<forall>l\<in>set (output_lines out). \<exists>k v. l = k @ js '': '' @ v \<and> clean k \<and> clean v)
     \<and> (\<forall>l\<in>set (output_lines out). \<not> blank l)
     \<and> (out = [] \<or> \<not> is_ws (last out))"
proof -
  let ?out = "spec_output (filtered_lines raw)"
  let ?ps = "filter retained (pairs_by_position (filtered_lines raw))"
  have lines: "output_lines ?out = map render ?ps"
    by (rule output_lines_spec)
  have shape: "\<exists>k v. l = k @ js '': '' @ v \<and> clean k \<and> clean v"
    if "l \<in> set (output_lines ?out)" for l
  proof -
    from that lines obtain p where "retained p" and "l = render p"
      by auto
    then have "l = trim (fst p) @ js '': '' @ trim (snd p)"
      and "clean (trim (fst p))" and "clean (trim (snd p))"
      by (simp_all add: render_def retained_def clean_trim)
    then show ?thesis by blast
  qed
  have nonblank: "\<not> blank l" if "l \<in> set (output_lines ?out)" for l
  proof -
    from shape [OF that] obtain k v where "l = k @ js '': '' @ v" and "clean k"
      by blast
    then have "hd k \<in> set l" and "\<not> is_ws (hd k)"
      by (simp_all add: clean_def)
    then show ?thesis
      by (auto simp: blank_iff list_all_iff)
  qed
  have "format raw = Some ?out"
    by (rule format_spec)
  with lines shape nonblank spec_output_end [of "filtered_lines raw"] show ?thesis
    by blast
qed

theorem format_output_shape_witness:
  "format (js '' K\<newline>V \<newline>X'') = Some (js ''K: V'')
   \<and> output_lines (js ''K: V'') = [js ''K: V'']
   \<and> \<not> blank (js ''K: V'')
   \<and> \<not> is_ws (last (js ''K: V''))"
proof -
  let ?raw = "js '' K\<newline>V \<newline>X''"
  obtain out where out: "format ?raw = Some out"
    and nb: "\<forall>l\<in>set (output_lines out). \<not> blank l"
    and e: "out = [] \<or> \<not> is_ws (last out)"
    using format_output_shape [of ?raw] by blast
  have f: "format ?raw = Some (js ''K: V'')"
    by (simp add: code_defs)
  with out have o: "out = js ''K: V''" by simp
  have l: "output_lines (js ''K: V'') = [js ''K: V'']"
    by (simp add: output_lines_def js_def)
  have "js ''K: V'' \<noteq> []"
    by (simp add: js_def)
  with nb e o l f show ?thesis by simp
qed

end
